theory Spec2Isabelle
  imports Main "HOL-Library.AList" "HOL-Library.Char_ord" "HOL-Library.List_Lexorder"
    "HOL-Library.Product_Lexorder" "HOL-Library.Multiset"
begin

section \<open>Data model\<close>

text \<open>
  Modelled from the spec: the classes \<open>Entity\<close> and \<open>Relation\<close> (module \<open>interfaces\<close>) and the
  exceptions \<open>EntityNotFoundError\<close> and \<open>EntityAlreadyExistsError\<close> (module \<open>exceptions\<close>) are
  imported by the manager but are not part of the source file. An entity is a name, a type
  and an ordered sequence of observation strings; a relation is the triple of a source name,
  a target name and a type; both errors carry the offending name. \<open>from_dict\<close> and
  \<open>to_dict\<close> carry the fields over unchanged, so a dictionary and its object are one record.
\<close>

record Entity =
  name :: string
  entityType :: string
  observations :: "string list"

record Relation =
  from_entity :: string
  to_entity :: string
  relationType :: string

datatype error =
    EntityNotFoundError string
  | EntityAlreadyExistsError string
  | ValueError string

text \<open>
  A row of the table \<open>entities (name PRIMARY KEY, entity_type, observations)\<close>: the
  observations are one text field. A row of the table \<open>relations\<close> holds exactly the three
  fields of a \<open>Relation\<close>, so the table is a list of those. Rows are kept in insertion order,
  which is the order in which a scan of the table lists them. Text is a \<open>string\<close>;
  characters outside the ASCII letters are compared exactly everywhere.
\<close>

record entity_row =
  row_name :: string
  entity_type :: string
  row_observations :: string

record db =
  entities_tbl :: "entity_row list"
  relations_tbl :: "Relation list"

text \<open>
  The connection of the manager. Python's \<open>sqlite3\<close> opens a transaction before the first
  INSERT, UPDATE or DELETE and keeps it open until \<open>commit\<close> or \<open>rollback\<close>: \<open>working\<close> is
  what the statements of this connection read and write, \<open>committed\<close> is what is durable.
\<close>

record conn =
  committed :: db
  working :: db

definition commit :: "conn \<Rightarrow> conn" where
  "commit c = \<lparr>committed = working c, working = working c\<rparr>"

definition rollback :: "conn \<Rightarrow> conn" where
  "rollback c = \<lparr>committed = committed c, working = committed c\<rparr>"

text \<open>The dictionary \<open>{"entities": ..., "relations": ...}\<close> returned by the read operations.\<close>

record graph =
  entities :: "Entity list"
  relations :: "Relation list"

section \<open>The delimited observations field\<close>

text \<open>Python's \<open>','.join(xs)\<close>.\<close>

fun join :: "string list \<Rightarrow> string" where
  "join [] = []"
| "join [x] = x"
| "join (x # y # ys) = x @ CHR '','' # join (y # ys)"

text \<open>Python's \<open>s.split(',')\<close>; \<open>cur\<close> is the piece read so far.\<close>

fun split_acc :: "string \<Rightarrow> string \<Rightarrow> string list" where
  "split_acc cur [] = [cur]"
| "split_acc cur (c # cs) =
     (if c = CHR '','' then cur # split_acc [] cs else split_acc (cur @ [c]) cs)"

definition split :: "string \<Rightarrow> string list" where
  "split s = split_acc [] s"

text \<open>\<open>row['observations'].split(',') if row['observations'] else []\<close>\<close>

definition field_to_obs :: "string \<Rightarrow> string list" where
  "field_to_obs s = (if s = [] then [] else split s)"

definition entity_to_row :: "Entity \<Rightarrow> entity_row" where
  "entity_to_row e =
     \<lparr>row_name = name e, entity_type = entityType e, row_observations = join (observations e)\<rparr>"

definition row_to_entity :: "entity_row \<Rightarrow> Entity" where
  "row_to_entity r =
     \<lparr>name = row_name r, entityType = entity_type r,
      observations = field_to_obs (row_observations r)\<rparr>"

section \<open>SQL statements\<close>

text \<open>
  The schema declares foreign keys from the endpoints of a relation to the entity names, but
  the connection never switches their enforcement on (SQLite's default is off), so the only
  constraints that a statement can violate are the two primary keys.
\<close>

text \<open>\<open>SELECT ... FROM entities WHERE name = ?\<close> followed by \<open>fetchone()\<close>.\<close>

definition select_entity :: "string \<Rightarrow> db \<Rightarrow> entity_row option" where
  "select_entity n d = find (\<lambda>r. row_name r = n) (entities_tbl d)"

text \<open>\<open>INSERT INTO entities\<close>: \<open>None\<close> is the IntegrityError of the primary key.\<close>

definition insert_entity :: "entity_row \<Rightarrow> db \<Rightarrow> db option" where
  "insert_entity r d =
     (if row_name r \<in> set (map row_name (entities_tbl d)) then None
      else Some (d\<lparr>entities_tbl := entities_tbl d @ [r]\<rparr>))"

text \<open>
  \<open>INSERT INTO relations ... ON CONFLICT DO NOTHING\<close>: the new table and \<open>cursor.rowcount\<close>.
\<close>

definition insert_relation :: "Relation \<Rightarrow> db \<Rightarrow> db \<times> nat" where
  "insert_relation r d =
     (if r \<in> set (relations_tbl d) then (d, 0)
      else (d\<lparr>relations_tbl := relations_tbl d @ [r]\<rparr>, 1))"

text \<open>\<open>UPDATE entities SET observations = ? WHERE name = ?\<close>\<close>

definition update_observations :: "string \<Rightarrow> string \<Rightarrow> db \<Rightarrow> db" where
  "update_observations v n d =
     d\<lparr>entities_tbl :=
         map (\<lambda>r. if row_name r = n then r\<lparr>row_observations := v\<rparr> else r) (entities_tbl d)\<rparr>"

text \<open>\<open>DELETE FROM relations WHERE from_entity = ? OR to_entity = ?\<close>\<close>

definition delete_relations_of :: "string \<Rightarrow> db \<Rightarrow> db" where
  "delete_relations_of n d =
     d\<lparr>relations_tbl :=
         filter (\<lambda>r. \<not> (from_entity r = n \<or> to_entity r = n)) (relations_tbl d)\<rparr>"

text \<open>\<open>DELETE FROM entities WHERE name = ?\<close>\<close>

definition delete_entity :: "string \<Rightarrow> db \<Rightarrow> db" where
  "delete_entity n d =
     d\<lparr>entities_tbl := filter (\<lambda>r. row_name r \<noteq> n) (entities_tbl d)\<rparr>"

definition stored_names :: "db \<Rightarrow> string set" where
  "stored_names d = set (map row_name (entities_tbl d))"

section \<open>The operations of the manager\<close>

subsection \<open>create_entities\<close>

fun create_entities_loop ::
  "Entity list \<Rightarrow> Entity list \<Rightarrow> conn \<Rightarrow> (error + Entity list) \<times> conn" where
  "create_entities_loop [] created c = (Inr created, commit c)"
| "create_entities_loop (e # es) created c =
     (case insert_entity (entity_to_row e) (working c) of
        None \<Rightarrow> (Inl (EntityAlreadyExistsError (name e)), rollback c)
      | Some d \<Rightarrow> create_entities_loop es (created @ [e]) (c\<lparr>working := d\<rparr>))"

definition create_entities :: "Entity list \<Rightarrow> conn \<Rightarrow> (error + Entity list) \<times> conn" where
  "create_entities es c = create_entities_loop es [] c"

subsection \<open>create_relations\<close>

fun create_relations_loop ::
  "Relation list \<Rightarrow> Relation list \<Rightarrow> conn \<Rightarrow> (error + Relation list) \<times> conn" where
  "create_relations_loop [] created c = (Inr created, commit c)"
| "create_relations_loop (r # rs) created c =
     (if select_entity (from_entity r) (working c) = None
      then (Inl (EntityNotFoundError (from_entity r)), rollback c)
      else if select_entity (to_entity r) (working c) = None
      then (Inl (EntityNotFoundError (to_entity r)), rollback c)
      else (case insert_relation r (working c) of
              (d, rowcount) \<Rightarrow>
                create_relations_loop rs (if rowcount > 0 then created @ [r] else created)
                  (c\<lparr>working := d\<rparr>)))"

definition create_relations ::
  "Relation list \<Rightarrow> conn \<Rightarrow> (error + Relation list) \<times> conn" where
  "create_relations rs c = create_relations_loop rs [] c"

subsection \<open>read_graph\<close>

definition read_graph :: "conn \<Rightarrow> graph" where
  "read_graph c =
     \<lparr>entities = map row_to_entity (entities_tbl (working c)),
      relations = relations_tbl (working c)\<rparr>"

subsection \<open>add_observations\<close>

text \<open>
  An item \<open>{"entityName": n, "contents": xs}\<close> is the pair \<open>(n, xs)\<close>. The returned dictionary
  is an association list in Python's key order: assigning to a key that is present replaces
  its value in place, a new key goes to the end. A missing entity raises with neither commit
  nor rollback, so the connection keeps what the earlier items wrote.
\<close>

fun add_observations_loop ::
  "(string \<times> string list) list \<Rightarrow> (string \<times> string list) list \<Rightarrow> conn \<Rightarrow>
   (error + (string \<times> string list) list) \<times> conn" where
  "add_observations_loop [] added c = (Inr added, commit c)"
| "add_observations_loop ((entity_name, new_contents) # obs) added c =
     (case select_entity entity_name (working c) of
        None \<Rightarrow> (Inl (EntityNotFoundError entity_name), c)
      | Some result \<Rightarrow>
          (let current_obs = field_to_obs (row_observations result) @ new_contents
           in add_observations_loop obs (AList.update entity_name new_contents added)
                (c\<lparr>working := update_observations (join current_obs) entity_name (working c)\<rparr>)))"

definition add_observations ::
  "(string \<times> string list) list \<Rightarrow> conn \<Rightarrow> (error + (string \<times> string list) list) \<times> conn" where
  "add_observations obs c = add_observations_loop obs [] c"

subsection \<open>delete_entities\<close>

fun delete_entities_loop :: "string list \<Rightarrow> conn \<Rightarrow> conn" where
  "delete_entities_loop [] c = commit c"
| "delete_entities_loop (n # ns) c =
     delete_entities_loop ns
       (c\<lparr>working := delete_entity n (delete_relations_of n (working c))\<rparr>)"

definition delete_entities :: "string list \<Rightarrow> conn \<Rightarrow> conn" where
  "delete_entities entityNames c = delete_entities_loop entityNames c"

subsection \<open>open_nodes\<close>

text \<open>
  \<open>name IN (?, ..., ?)\<close> compares text exactly; with no placeholder, SQLite's \<open>IN ()\<close> holds
  of no row. SQLite answers an \<open>IN\<close> query through the index of the primary key, and lists
  the rows in the order of that index: entities by ascending name, relations by ascending
  source, then target, then type, text being compared character by character.
\<close>

definition relation_key :: "Relation \<Rightarrow> string \<times> string \<times> string" where
  "relation_key r = (from_entity r, to_entity r, relationType r)"

definition open_nodes :: "string list \<Rightarrow> conn \<Rightarrow> graph" where
  "open_nodes names c =
     \<lparr>entities =
        map row_to_entity
          (sort_key row_name (filter (\<lambda>r. row_name r \<in> set names) (entities_tbl (working c)))),
      relations =
        sort_key relation_key
          (filter (\<lambda>r. from_entity r \<in> set names \<and> to_entity r \<in> set names)
             (relations_tbl (working c)))\<rparr>"

subsection \<open>search_nodes\<close>

text \<open>
  SQLite's \<open>LIKE\<close> with its defaults: in the pattern \<open>%\<close> stands for any sequence of
  characters and \<open>_\<close> for any one character, every other character stands for itself, and the
  ASCII letters are compared without regard to case. The operator reads its pattern and its
  text as C strings: each of them ends at its first NUL character.
\<close>

definition to_lower :: "char \<Rightarrow> char" where
  "to_lower ch =
     (case map_of (zip ''ABCDEFGHIJKLMNOPQRSTUVWXYZ'' ''abcdefghijklmnopqrstuvwxyz'') ch of
        None \<Rightarrow> ch
      | Some l \<Rightarrow> l)"

definition like_char :: "char \<Rightarrow> char \<Rightarrow> bool" where
  "like_char p ch = (p = CHR ''_'' \<or> to_lower p = to_lower ch)"

fun pattern_compare :: "string \<Rightarrow> string \<Rightarrow> bool" where
  "pattern_compare [] s = (s = [])"
| "pattern_compare (p # ps) [] = (p = CHR ''%'' \<and> pattern_compare ps [])"
| "pattern_compare (p # ps) (ch # s) =
     (if p = CHR ''%'' then pattern_compare ps (ch # s) \<or> pattern_compare (p # ps) s
      else like_char p ch \<and> pattern_compare ps s)"

definition c_str :: "string \<Rightarrow> string" where
  "c_str s = takeWhile (\<lambda>ch. ch \<noteq> CHR 0x00) s"

definition like :: "string \<Rightarrow> string \<Rightarrow> bool" where
  "like pattern s = pattern_compare (c_str pattern) (c_str s)"

definition row_matches :: "string \<Rightarrow> entity_row \<Rightarrow> bool" where
  "row_matches query r =
     (let search_pattern = ''%'' @ query @ ''%''
      in like search_pattern (row_name r) \<or> like search_pattern (entity_type r)
         \<or> like search_pattern (row_observations r))"

definition search_nodes :: "string \<Rightarrow> conn \<Rightarrow> error + graph" where
  "search_nodes query c =
     (if query = [] then Inl (ValueError ''Search query cannot be empty'')
      else
        (let found = map row_to_entity (filter (row_matches query) (entities_tbl (working c)));
             entity_names = set (map name found);
             stored = set (map row_name (entities_tbl (working c)))
         in Inr \<lparr>entities = found,
                 relations =
                   sort_key relation_key
                     (filter (\<lambda>r. (from_entity r \<in> stored \<and> from_entity r \<in> entity_names)
                                \<and> (to_entity r \<in> stored \<and> to_entity r \<in> entity_names))
                        (relations_tbl (working c)))\<rparr>))"

section \<open>Notions used to state the properties\<close>

text \<open>
  The observation lists that the delimited field represents faithfully: no item contains
  the delimiter, and the list is not the single empty string (whose field is empty, as is
  the field of the empty list).
\<close>

definition storable :: "string list \<Rightarrow> bool" where
  "storable xs = ((\<forall>x\<in>set xs. CHR '','' \<notin> set x) \<and> xs \<noteq> [[]])"

text \<open>The observations that a graph lists for the entity of a given name.\<close>

definition observations_of :: "string \<Rightarrow> graph \<Rightarrow> string list option" where
  "observations_of n g = map_option observations (find (\<lambda>e. name e = n) (entities g))"

text \<open>The stored observations field of the entity of a given name.\<close>

definition stored_field :: "string \<Rightarrow> db \<Rightarrow> string option" where
  "stored_field n d = map_option row_observations (select_entity n d)"

text \<open>
  Following the spec's words for \<open>search_nodes\<close>: literal, case-sensitive containment of the
  query as a substring, in the name, the type or the stored observations field.
\<close>

fun contains_substring :: "string \<Rightarrow> string \<Rightarrow> bool" where
  "contains_substring q [] = (q = [])"
| "contains_substring q (ch # s) = (take (length q) (ch # s) = q \<or> contains_substring q s)"

definition spec_row_matches :: "string \<Rightarrow> entity_row \<Rightarrow> bool" where
  "spec_row_matches q r =
     (contains_substring q (row_name r) \<or> contains_substring q (entity_type r)
      \<or> contains_substring q (row_observations r))"

text \<open>Containment of the query as a substring up to the case of the ASCII letters.\<close>

fun contains_nocase :: "string \<Rightarrow> string \<Rightarrow> bool" where
  "contains_nocase q [] = (q = [])"
| "contains_nocase q (ch # s) =
     (map to_lower (take (length q) (ch # s)) = map to_lower q \<or> contains_nocase q s)"

text \<open>
  What the constraints of the schema and the checks of the manager maintain: names are
  unique (the primary key of \<open>entities\<close>), triples are unique (the primary key of
  \<open>relations\<close>), and both endpoints of every relation are stored entities.
\<close>

definition well_formed :: "db \<Rightarrow> bool" where
  "well_formed d =
     (distinct (map row_name (entities_tbl d)) \<and> distinct (relations_tbl d)
      \<and> (\<forall>r\<in>set (relations_tbl d). from_entity r \<in> stored_names d \<and> to_entity r \<in> stored_names d))"

definition conn_ok :: "conn \<Rightarrow> bool" where
  "conn_ok c = (well_formed (working c) \<and> well_formed (committed c))"

section \<open>Example stores\<close>

definition alice_row :: entity_row where
  "alice_row =
     \<lparr>row_name = ''Alice'', entity_type = ''person'', row_observations = ''likes tea,owns cat''\<rparr>"

definition bob_row :: entity_row where
  "bob_row = \<lparr>row_name = ''Bob'', entity_type = ''person'', row_observations = []\<rparr>"

definition knows :: Relation where
  "knows = \<lparr>from_entity = ''Alice'', to_entity = ''Bob'', relationType = ''knows''\<rparr>"

definition example_db :: db where
  "example_db = \<lparr>entities_tbl = [alice_row, bob_row], relations_tbl = [knows]\<rparr>"

definition example_conn :: conn where
  "example_conn = \<lparr>committed = example_db, working = example_db\<rparr>"

definition empty_db :: db where
  "empty_db = \<lparr>entities_tbl = [], relations_tbl = []\<rparr>"

definition empty_conn :: conn where
  "empty_conn = \<lparr>committed = empty_db, working = empty_db\<rparr>"

definition likes :: Relation where
  "likes = \<lparr>from_entity = ''Bob'', to_entity = ''Alice'', relationType = ''likes''\<rparr>"

definition visits :: Relation where
  "visits = \<lparr>from_entity = ''Alice'', to_entity = ''Carol'', relationType = ''visits''\<rparr>"

definition carol :: Entity where
  "carol = \<lparr>name = ''Carol'', entityType = ''person'', observations = [''a'', ''b'']\<rparr>"

definition alice_again :: Entity where
  "alice_again = \<lparr>name = ''Alice'', entityType = ''robot'', observations = [''new'']\<rparr>"

definition nul_row :: entity_row where
  "nul_row =
     \<lparr>row_name = [CHR ''a'', CHR 0x00, CHR ''b''], entity_type = ''t'', row_observations = []\<rparr>"

definition nul_conn :: conn where
  "nul_conn =
     \<lparr>committed = \<lparr>entities_tbl = [nul_row], relations_tbl = []\<rparr>,
      working = \<lparr>entities_tbl = [nul_row], relations_tbl = []\<rparr>\<rparr>"

lemmas example_defs =
  example_conn_def example_db_def alice_row_def bob_row_def knows_def empty_conn_def empty_db_def
  likes_def visits_def carol_def alice_again_def

section \<open>Facts about the statements and the loops\<close>

lemma db_eqI: "entities_tbl a = entities_tbl b \<Longrightarrow> relations_tbl a = relations_tbl b \<Longrightarrow> a = (b::db)"
  by simp

lemma conn_eqI: "committed a = committed b \<Longrightarrow> working a = working b \<Longrightarrow> a = (b::conn)"
  by simp

lemma select_entity_None: "select_entity n d = None \<longleftrightarrow> n \<notin> stored_names d"
  by (auto simp: select_entity_def stored_names_def find_None_iff)

lemma insert_entity_None: "insert_entity r d = None \<longleftrightarrow> row_name r \<in> stored_names d"
  by (simp add: insert_entity_def stored_names_def)

lemma stored_names_insert:
  "insert_entity r d = Some d' \<Longrightarrow> stored_names d' = insert (row_name r) (stored_names d)"
  by (auto simp: insert_entity_def stored_names_def split: if_splits)

lemma stored_names_insert_relation: "stored_names (fst (insert_relation r d)) = stored_names d"
  by (simp add: insert_relation_def stored_names_def)

lemma filter_same_key:
  "distinct (map f xs) \<Longrightarrow> x \<in> set xs \<Longrightarrow> filter (\<lambda>y. f y = f x) xs = [x]"
proof (induction xs)
  case Nil then show ?case by simp
next
  case (Cons a xs)
  show ?case
  proof (cases "a = x")
    case True
    with Cons.prems have "f x \<notin> f ` set xs" by simp
    then have "\<forall>y\<in>set xs. f y \<noteq> f x" by (metis imageI)
    then have "filter (\<lambda>y. f y = f x) xs = []" by (simp add: filter_empty_conv)
    with True show ?thesis by simp
  next
    case False
    with Cons.prems have "x \<in> set xs" "f a \<noteq> f x" by auto
    with Cons show ?thesis by simp
  qed
qed

lemma find_filter_single: "filter P xs = [x] \<Longrightarrow> find P xs = Some x"
proof (induction xs)
  case Nil then show ?case by simp
next
  case (Cons a xs)
  then show ?case by (cases "P a") (auto simp: filter_empty_conv find_None_iff)
qed

lemma single_row_of_name:
  assumes "distinct (map row_name xs)" and "n \<in> set (map row_name xs)"
  shows "\<exists>row. find (\<lambda>r. row_name r = n) xs = Some row \<and> filter (\<lambda>r. row_name r = n) xs = [row]"
proof -
  from assms(2) obtain x where x: "x \<in> set xs" "row_name x = n" by auto
  from filter_same_key[OF assms(1) x(1)] x(2) have f: "filter (\<lambda>r. row_name r = n) xs = [x]" by simp
  from find_filter_single[OF f] f show ?thesis by simp
qed

section \<open>search_nodes with no match\<close>

text \<open>
  C1. A non-empty query that matches no stored entity gives a result whose entity list and
  relation list are both empty: the empty set of matched names selects no relation, whatever
  the relations table holds.
\<close>

theorem search_nodes_no_match:
  assumes "query \<noteq> []"
    and "\<forall>r\<in>set (entities_tbl (working c)). \<not> row_matches query r"
  shows "search_nodes query c = Inr \<lparr>entities = [], relations = []\<rparr>"
  using assms by (simp add: search_nodes_def Let_def)

theorem search_nodes_no_match_witness:
  "''zzz'' \<noteq> [] \<and> entities_tbl (working example_conn) = [alice_row, bob_row]
   \<and> \<not> row_matches ''zzz'' alice_row \<and> \<not> row_matches ''zzz'' bob_row
   \<and> relations_tbl (working example_conn) = [knows]
   \<and> search_nodes ''zzz'' example_conn = Inr \<lparr>entities = [], relations = []\<rparr>"
proof -
  have q: "''zzz'' \<noteq> []" by simp
  have rows: "entities_tbl (working example_conn) = [alice_row, bob_row]"
    by (simp add: example_conn_def example_db_def)
  have a: "\<not> row_matches ''zzz'' alice_row"
    by (simp add: alice_row_def row_matches_def like_def c_str_def like_char_def to_lower_def)
  have b: "\<not> row_matches ''zzz'' bob_row"
    by (simp add: bob_row_def row_matches_def like_def c_str_def like_char_def to_lower_def)
  have none: "\<forall>r\<in>set (entities_tbl (working example_conn)). \<not> row_matches ''zzz'' r"
    using rows a b by simp
  have tbl: "relations_tbl (working example_conn) = [knows]"
    by (simp add: example_conn_def example_db_def)
  show ?thesis using q rows a b tbl search_nodes_no_match [OF q none] by blast
qed

section \<open>open_nodes\<close>

text \<open>
  C3. \<open>open_nodes names\<close> returns exactly the entities of the graph whose name is in the
  list and exactly the relations whose source and target are both in the list, each as often
  as the graph has it, in the order in which the backend lists them; a relation of the graph
  with an endpoint outside the list is not returned.
\<close>

theorem open_nodes_exact:
  "mset (entities (open_nodes names c)) =
     mset (filter (\<lambda>e. name e \<in> set names) (entities (read_graph c)))
   \<and> mset (relations (open_nodes names c)) =
       mset (filter (\<lambda>r. from_entity r \<in> set names \<and> to_entity r \<in> set names)
               (relations (read_graph c)))
   \<and> (\<forall>r\<in>set (relations (read_graph c)).
         \<not> (from_entity r \<in> set names \<and> to_entity r \<in> set names)
         \<longrightarrow> r \<notin> set (relations (open_nodes names c)))"
proof -
  have nm: "(\<lambda>r. name (row_to_entity r) \<in> set names) = (\<lambda>r. row_name r \<in> set names)"
    by (simp add: row_to_entity_def)
  have e: "mset (entities (open_nodes names c)) =
     mset (filter (\<lambda>e. name e \<in> set names) (entities (read_graph c)))"
    by (simp add: open_nodes_def read_graph_def filter_map comp_def nm)
  have r: "mset (relations (open_nodes names c)) =
       mset (filter (\<lambda>r. from_entity r \<in> set names \<and> to_entity r \<in> set names)
               (relations (read_graph c)))"
    by (simp add: open_nodes_def read_graph_def)
  have x: "\<forall>r\<in>set (relations (read_graph c)).
         \<not> (from_entity r \<in> set names \<and> to_entity r \<in> set names)
         \<longrightarrow> r \<notin> set (relations (open_nodes names c))"
    by (simp add: open_nodes_def)
  show ?thesis using e r x by blast
qed

theorem open_nodes_exact_witness:
  "knows \<in> set (relations (read_graph example_conn))
   \<and> \<not> (from_entity knows \<in> set [''Alice''] \<and> to_entity knows \<in> set [''Alice''])
   \<and> knows \<notin> set (relations (open_nodes [''Alice''] example_conn))
   \<and> mset (entities (open_nodes [''Alice''] example_conn)) = mset [row_to_entity alice_row]"
proof -
  have k: "knows \<in> set (relations (read_graph example_conn))"
    by (simp add: read_graph_def example_defs)
  have out: "\<not> (from_entity knows \<in> set [''Alice''] \<and> to_entity knows \<in> set [''Alice''])"
    by (simp add: example_defs)
  have f: "filter (\<lambda>e. name e \<in> set [''Alice'']) (entities (read_graph example_conn)) =
      [row_to_entity alice_row]"
    by (simp add: read_graph_def row_to_entity_def example_defs)
  note t = open_nodes_exact [of "[''Alice'']" example_conn]
  have gone: "knows \<notin> set (relations (open_nodes [''Alice''] example_conn))"
    using t k out by blast
  have ents: "mset (entities (open_nodes [''Alice''] example_conn)) = mset [row_to_entity alice_row]"
    using t unfolding f by blast
  show ?thesis using k out gone ents by blast
qed

section \<open>create_relations\<close>

lemma create_relations_loop_fail:
  assumes "\<forall>x\<in>set pre. from_entity x \<in> stored_names (working c) \<and> to_entity x \<in> stored_names (working c)"
    and "from_entity r \<notin> stored_names (working c) \<or> to_entity r \<notin> stored_names (working c)"
  shows "create_relations_loop (pre @ r # post) created c =
    (Inl (EntityNotFoundError (if from_entity r \<notin> stored_names (working c) then from_entity r else to_entity r)),
     rollback c)"
  using assms
proof (induction pre arbitrary: created c)
  case Nil
  then show ?case by (auto simp: select_entity_None)
next
  case (Cons x pre)
  obtain d k where ins: "insert_relation x (working c) = (d, k)" by (cases "insert_relation x (working c)")
  then have d: "stored_names d = stored_names (working c)"
    using stored_names_insert_relation[of x "working c"] by simp
  let ?c = "c\<lparr>working := d\<rparr>"
  have rb: "rollback ?c = rollback c" by (simp add: rollback_def)
  have "create_relations_loop (pre @ r # post) (if k > 0 then created @ [x] else created) ?c =
    (Inl (EntityNotFoundError (if from_entity r \<notin> stored_names (working ?c) then from_entity r else to_entity r)),
     rollback ?c)"
    by (rule Cons.IH) (use Cons.prems d in auto)
  then show ?case using Cons.prems ins d rb by (simp add: select_entity_None)
qed

lemma split_first_bad:
  assumes "\<exists>x\<in>set xs. \<not> P x"
  shows "\<exists>pre r post. xs = pre @ r # post \<and> (\<forall>x\<in>set pre. P x) \<and> \<not> P r"
  using assms
proof (induction xs)
  case Nil then show ?case by simp
next
  case (Cons a xs)
  show ?case
  proof (cases "P a")
    case False
    then have "a # xs = [] @ a # xs \<and> (\<forall>x\<in>set []. P x) \<and> \<not> P a" by simp
    then show ?thesis by blast
  next
    case True
    with Cons obtain pre r post where "xs = pre @ r # post" "\<forall>x\<in>set pre. P x" "\<not> P r" by auto
    with True have "a # xs = (a # pre) @ r # post \<and> (\<forall>x\<in>set (a # pre). P x) \<and> \<not> P r" by simp
    then show ?thesis by blast
  qed
qed

lemma create_relations_loop_ok:
  assumes "create_relations_loop rs created c = (Inr out, c')"
  shows "\<exists>new. out = created @ new
           \<and> relations_tbl (working c') = relations_tbl (working c) @ new
           \<and> entities_tbl (working c') = entities_tbl (working c)
           \<and> set new = set rs - set (relations_tbl (working c))
           \<and> distinct new
           \<and> (\<forall>r\<in>set rs. from_entity r \<in> stored_names (working c) \<and> to_entity r \<in> stored_names (working c))
           \<and> committed c' = working c'"
  using assms
proof (induction rs arbitrary: created c)
  case Nil
  then show ?case by (auto simp: commit_def)
next
  case (Cons r rs)
  from Cons.prems have ex: "from_entity r \<in> stored_names (working c)" "to_entity r \<in> stored_names (working c)"
    by (auto simp: select_entity_None split: if_splits)
  show ?case
  proof (cases "r \<in> set (relations_tbl (working c))")
    case True
    then have ins: "insert_relation r (working c) = (working c, 0)" by (simp add: insert_relation_def)
    have cc: "c\<lparr>working := working c\<rparr> = c" by simp
    from Cons.prems ex ins have "create_relations_loop rs created c = (Inr out, c')"
      by (simp add: select_entity_None cc)
    from Cons.IH[OF this] obtain new where new: "out = created @ new"
      "relations_tbl (working c') = relations_tbl (working c) @ new"
      "entities_tbl (working c') = entities_tbl (working c)"
      "set new = set rs - set (relations_tbl (working c))" "distinct new"
      "\<forall>r\<in>set rs. from_entity r \<in> stored_names (working c) \<and> to_entity r \<in> stored_names (working c)"
      "committed c' = working c'" by blast
    from new(4) True have "set new = set (r # rs) - set (relations_tbl (working c))" by auto
    with new ex show ?thesis by auto
  next
    case False
    let ?d = "(working c)\<lparr>relations_tbl := relations_tbl (working c) @ [r]\<rparr>"
    let ?c = "c\<lparr>working := ?d\<rparr>"
    from False have ins: "insert_relation r (working c) = (?d, 1)" by (simp add: insert_relation_def)
    from Cons.prems ex ins have "create_relations_loop rs (created @ [r]) ?c = (Inr out, c')"
      by (simp add: select_entity_None)
    from Cons.IH[OF this] obtain new where new: "out = (created @ [r]) @ new"
      "relations_tbl (working c') = relations_tbl (working ?c) @ new"
      "entities_tbl (working c') = entities_tbl (working ?c)"
      "set new = set rs - set (relations_tbl (working ?c))" "distinct new"
      "\<forall>r\<in>set rs. from_entity r \<in> stored_names (working ?c) \<and> to_entity r \<in> stored_names (working ?c)"
      "committed c' = working c'" by blast
    have sn: "stored_names (working ?c) = stored_names (working c)" by (simp add: stored_names_def)
    from new(4) have rn: "r \<notin> set new" by simp
    have "out = created @ (r # new)" using new(1) by simp
    moreover have "relations_tbl (working c') = relations_tbl (working c) @ (r # new)" using new(2) by simp
    moreover have "entities_tbl (working c') = entities_tbl (working c)" using new(3) by simp
    moreover have "set (r # new) = set (r # rs) - set (relations_tbl (working c))"
      using new(4) False by auto
    moreover have "distinct (r # new)" using rn new(5) by simp
    moreover have "\<forall>x\<in>set (r # rs). from_entity x \<in> stored_names (working c) \<and> to_entity x \<in> stored_names (working c)"
      using new(6) ex sn by simp
    ultimately show ?thesis using new(7) by blast
  qed
qed

lemma create_relations_loop_present:
  assumes "\<forall>r\<in>set rs. from_entity r \<in> stored_names (working c) \<and> to_entity r \<in> stored_names (working c)"
    and "set rs \<subseteq> set (relations_tbl (working c))"
  shows "create_relations_loop rs created c = (Inr created, commit c)"
  using assms
proof (induction rs)
  case Nil then show ?case by simp
next
  case (Cons r rs)
  then have ins: "insert_relation r (working c) = (working c, 0)" by (simp add: insert_relation_def)
  have cc: "c\<lparr>working := working c\<rparr> = c" by simp
  from Cons ins show ?case by (simp add: select_entity_None cc)
qed

text \<open>
  C5. When some relation of the batch has a source or a target that is not a stored entity,
  \<open>create_relations\<close> fails with the not-found error of a missing endpoint of the batch and
  rolls back: what is committed is unchanged and the connection is back at it, so no relation
  of the batch is kept.
\<close>

theorem create_relations_missing_endpoint:
  assumes "\<exists>r\<in>set rs. from_entity r \<notin> stored_names (working c) \<or> to_entity r \<notin> stored_names (working c)"
  shows "\<exists>n. create_relations rs c = (Inl (EntityNotFoundError n), rollback c)
            \<and> n \<notin> stored_names (working c)
            \<and> (\<exists>r\<in>set rs. n = from_entity r \<or> n = to_entity r)
            \<and> committed (snd (create_relations rs c)) = committed c
            \<and> working (snd (create_relations rs c)) = committed c"
proof -
  let ?P = "\<lambda>x. from_entity x \<in> stored_names (working c) \<and> to_entity x \<in> stored_names (working c)"
  from assms have "\<exists>x\<in>set rs. \<not> ?P x" by auto
  from split_first_bad[OF this] obtain pre r post where
    rs: "rs = pre @ r # post" and pre: "\<forall>x\<in>set pre. ?P x" and r: "\<not> ?P r" by blast
  let ?n = "if from_entity r \<notin> stored_names (working c) then from_entity r else to_entity r"
  have "create_relations rs c = (Inl (EntityNotFoundError ?n), rollback c)"
    unfolding create_relations_def rs by (rule create_relations_loop_fail) (use pre r in auto)
  moreover have "?n \<notin> stored_names (working c)" using r by auto
  moreover have "\<exists>r\<in>set rs. ?n = from_entity r \<or> ?n = to_entity r" unfolding rs by auto
  ultimately show ?thesis by (auto simp: rollback_def)
qed

theorem create_relations_missing_endpoint_witness:
  "(\<exists>r\<in>set [likes, visits]. from_entity r \<notin> stored_names (working example_conn)
        \<or> to_entity r \<notin> stored_names (working example_conn))
   \<and> create_relations [likes, visits] example_conn =
       (Inl (EntityNotFoundError ''Carol''), example_conn)"
proof -
  have h: "\<exists>r\<in>set [likes, visits]. from_entity r \<notin> stored_names (working example_conn)
        \<or> to_entity r \<notin> stored_names (working example_conn)"
    by (simp add: example_defs stored_names_def)
  have rb: "rollback example_conn = example_conn"
    by (simp add: rollback_def example_conn_def)
  from create_relations_missing_endpoint [OF h] obtain n where
    n: "create_relations [likes, visits] example_conn = (Inl (EntityNotFoundError n), rollback example_conn)"
      "n \<notin> stored_names (working example_conn)"
      "\<exists>r\<in>set [likes, visits]. n = from_entity r \<or> n = to_entity r"
    by blast
  from n(2,3) have "n = ''Carol''"
    by (auto simp: example_defs stored_names_def)
  with n(1) rb h show ?thesis by simp
qed

text \<open>
  C6. A successful \<open>create_relations\<close> appends to the table exactly the triples of the batch
  that were not stored, each once, and returns them; a triple that was stored is skipped,
  so a table without duplicates holds every triple of the batch exactly once afterwards, and
  the same call made again returns the empty list and changes nothing.
\<close>

theorem create_relations_idempotent:
  assumes "create_relations rs c = (Inr created, c')"
  shows "relations_tbl (working c') = relations_tbl (working c) @ created
       \<and> set created = set rs - set (relations_tbl (working c))
       \<and> distinct created
       \<and> committed c' = working c'
       \<and> (distinct (relations_tbl (working c)) \<longrightarrow>
            (\<forall>r\<in>set rs. length (filter (\<lambda>x. x = r) (relations_tbl (working c'))) = 1))
       \<and> create_relations rs c' = (Inr [], c')"
proof -
  from create_relations_loop_ok[OF assms[unfolded create_relations_def]]
  have tbl: "relations_tbl (working c') = relations_tbl (working c) @ created"
    and ent: "entities_tbl (working c') = entities_tbl (working c)"
    and new: "set created = set rs - set (relations_tbl (working c))"
    and dist: "distinct created"
    and ex: "\<forall>r\<in>set rs. from_entity r \<in> stored_names (working c) \<and> to_entity r \<in> stored_names (working c)"
    and com: "committed c' = working c'" by auto
  have sub: "set rs \<subseteq> set (relations_tbl (working c'))" using tbl new by auto
  have sn: "stored_names (working c') = stored_names (working c)" using ent by (simp add: stored_names_def)
  have cc: "commit c' = c'" using com by (simp add: commit_def)
  have again: "create_relations rs c' = (Inr [], c')"
    unfolding create_relations_def using create_relations_loop_present[of rs c' "[]"] ex sn sub cc by simp
  have one: "\<forall>r\<in>set rs. length (filter (\<lambda>x. x = r) (relations_tbl (working c'))) = 1"
    if d: "distinct (relations_tbl (working c))"
  proof
    fix r assume "r \<in> set rs"
    with sub have r: "r \<in> set (relations_tbl (working c'))" by auto
    have "distinct (relations_tbl (working c'))" using d dist tbl new by auto
    with r show "length (filter (\<lambda>x. x = r) (relations_tbl (working c'))) = 1"
      by (simp add: distinct_length_filter)
  qed
  show ?thesis using tbl new dist com one again by blast
qed

theorem create_relations_idempotent_witness:
  "create_relations [knows, likes] example_conn =
     (Inr [likes], snd (create_relations [knows, likes] example_conn))
   \<and> distinct (relations_tbl (working example_conn))
   \<and> relations_tbl (working (snd (create_relations [knows, likes] example_conn))) = [knows, likes]
   \<and> create_relations [knows, likes] (snd (create_relations [knows, likes] example_conn)) =
       (Inr [], snd (create_relations [knows, likes] example_conn))"
proof -
  have h: "create_relations [knows, likes] example_conn =
     (Inr [likes], snd (create_relations [knows, likes] example_conn))"
    by (simp add: create_relations_def select_entity_def insert_relation_def example_defs)
  have d: "distinct (relations_tbl (working example_conn))"
    by (simp add: example_defs)
  have t: "relations_tbl (working example_conn) = [knows]"
    by (simp add: example_defs)
  show ?thesis using h d t create_relations_idempotent [OF h] by simp
qed

section \<open>delete_entities\<close>

lemma delete_entities_loop_tables:
  "entities_tbl (working (delete_entities_loop ns c)) =
     filter (\<lambda>r. row_name r \<notin> set ns) (entities_tbl (working c))
   \<and> relations_tbl (working (delete_entities_loop ns c)) =
     filter (\<lambda>r. from_entity r \<notin> set ns \<and> to_entity r \<notin> set ns) (relations_tbl (working c))
   \<and> committed (delete_entities_loop ns c) = working (delete_entities_loop ns c)"
proof (induction ns arbitrary: c)
  case Nil
  then show ?case by (simp add: commit_def)
next
  case (Cons n ns)
  let ?c = "c\<lparr>working := delete_entity n (delete_relations_of n (working c))\<rparr>"
  have e: "entities_tbl (working ?c) = filter (\<lambda>r. row_name r \<noteq> n) (entities_tbl (working c))"
    by (simp add: delete_entity_def delete_relations_of_def)
  have r: "relations_tbl (working ?c) =
      filter (\<lambda>r. \<not> (from_entity r = n \<or> to_entity r = n)) (relations_tbl (working c))"
    by (simp add: delete_entity_def delete_relations_of_def)
  have "entities_tbl (working (delete_entities_loop ns ?c)) =
      filter (\<lambda>r. row_name r \<notin> set (n # ns)) (entities_tbl (working c))"
    using Cons.IH[of ?c] unfolding e by (auto intro: filter_cong)
  moreover have "relations_tbl (working (delete_entities_loop ns ?c)) =
      filter (\<lambda>r. from_entity r \<notin> set (n # ns) \<and> to_entity r \<notin> set (n # ns))
        (relations_tbl (working c))"
    using Cons.IH[of ?c] unfolding r by (auto intro: filter_cong)
  moreover have "committed (delete_entities_loop ns ?c) = working (delete_entities_loop ns ?c)"
    using Cons.IH[of ?c] by blast
  ultimately show ?case by simp
qed

text \<open>
  C8. After \<open>delete_entities names\<close> the graph lists no entity named in the list and no
  relation with such a name as source or target; the other entities and relations are all
  kept. Names that are neither stored nor referenced leave the tables as they were, and a
  second deletion of the same names changes nothing.
\<close>

theorem delete_entities_cascade:
  "(\<forall>n\<in>set ns.
      n \<notin> set (map name (entities (read_graph (delete_entities ns c))))
      \<and> (\<forall>r\<in>set (relations (read_graph (delete_entities ns c))). from_entity r \<noteq> n \<and> to_entity r \<noteq> n))
   \<and> entities (read_graph (delete_entities ns c)) =
       filter (\<lambda>e. name e \<notin> set ns) (entities (read_graph c))
   \<and> relations (read_graph (delete_entities ns c)) =
       filter (\<lambda>r. from_entity r \<notin> set ns \<and> to_entity r \<notin> set ns) (relations (read_graph c))
   \<and> ((\<forall>n\<in>set ns. n \<notin> stored_names (working c))
        \<and> (\<forall>r\<in>set (relations_tbl (working c)).
              from_entity r \<in> stored_names (working c) \<and> to_entity r \<in> stored_names (working c))
        \<longrightarrow> working (delete_entities ns c) = working c)
   \<and> delete_entities ns (delete_entities ns c) = delete_entities ns c"
proof -
  let ?c = "delete_entities ns c"
  note t = delete_entities_loop_tables[of ns c, folded delete_entities_def]
  note t2 = delete_entities_loop_tables[of ns ?c, folded delete_entities_def]
  have a: "\<forall>n\<in>set ns. n \<notin> set (map name (entities (read_graph ?c)))
      \<and> (\<forall>r\<in>set (relations (read_graph ?c)). from_entity r \<noteq> n \<and> to_entity r \<noteq> n)"
    using t by (auto simp: read_graph_def row_to_entity_def)
  have b: "entities (read_graph ?c) = filter (\<lambda>e. name e \<notin> set ns) (entities (read_graph c))"
    using t by (simp add: read_graph_def filter_map comp_def row_to_entity_def)
  have b': "relations (read_graph ?c) =
       filter (\<lambda>r. from_entity r \<notin> set ns \<and> to_entity r \<notin> set ns) (relations (read_graph c))"
    using t by (simp add: read_graph_def)
  have d: "working ?c = working c"
    if "\<forall>n\<in>set ns. n \<notin> stored_names (working c)"
      and "\<forall>r\<in>set (relations_tbl (working c)).
              from_entity r \<in> stored_names (working c) \<and> to_entity r \<in> stored_names (working c)"
  proof (rule db_eqI)
    show "entities_tbl (working ?c) = entities_tbl (working c)"
      using t that(1) by (auto simp: stored_names_def filter_id_conv)
    show "relations_tbl (working ?c) = relations_tbl (working c)"
      using t that by (auto simp: filter_id_conv)
  qed
  have e: "delete_entities ns ?c = ?c"
  proof (rule conn_eqI)
    have w: "working (delete_entities ns ?c) = working ?c"
      by (rule db_eqI) (use t t2 in auto)
    then show "working (delete_entities ns ?c) = working ?c" .
    show "committed (delete_entities ns ?c) = committed ?c" using t t2 w by simp
  qed
  show ?thesis using a b b' d e by blast
qed

theorem delete_entities_cascade_witness:
  "''Alice'' \<in> set [''Alice'']
   \<and> ''Alice'' \<notin> set (map name (entities (read_graph (delete_entities [''Alice''] example_conn))))
   \<and> relations (read_graph example_conn) = [knows]
   \<and> relations (read_graph (delete_entities [''Alice''] example_conn)) = []
   \<and> ''Dave'' \<notin> stored_names (working example_conn)
   \<and> from_entity knows \<in> stored_names (working example_conn)
   \<and> to_entity knows \<in> stored_names (working example_conn)
   \<and> working (delete_entities [''Dave''] example_conn) = working example_conn"
proof -
  have a: "''Alice'' \<in> set [''Alice'']" by simp
  have d: "''Dave'' \<notin> stored_names (working example_conn)"
    by (simp add: example_defs stored_names_def)
  have k: "from_entity knows \<in> stored_names (working example_conn)"
      "to_entity knows \<in> stored_names (working example_conn)"
    by (simp_all add: example_defs stored_names_def)
  have t: "relations_tbl (working example_conn) = [knows]"
    by (simp add: example_conn_def example_db_def)
  have g: "relations (read_graph example_conn) = [knows]"
    using t by (simp add: read_graph_def)
  have n: "\<forall>n\<in>set [''Dave'']. n \<notin> stored_names (working example_conn)"
    using d by simp
  have i: "\<forall>r\<in>set (relations_tbl (working example_conn)).
         from_entity r \<in> stored_names (working example_conn)
         \<and> to_entity r \<in> stored_names (working example_conn)"
    using t k by simp
  note alice = delete_entities_cascade [of "[''Alice'']" example_conn]
  note dave = delete_entities_cascade [of "[''Dave'']" example_conn]
  have gone: "''Alice'' \<notin> set (map name (entities (read_graph (delete_entities [''Alice''] example_conn))))"
    using alice a by blast
  have "relations (read_graph (delete_entities [''Alice''] example_conn)) =
      filter (\<lambda>r. from_entity r \<notin> set [''Alice''] \<and> to_entity r \<notin> set [''Alice''])
        (relations (read_graph example_conn))"
    using alice by blast
  then have rels: "relations (read_graph (delete_entities [''Alice''] example_conn)) = []"
    unfolding g by (simp add: knows_def)
  have same: "working (delete_entities [''Dave''] example_conn) = working example_conn"
    using dave n i by blast
  show ?thesis using a gone g rels d k same by blast
qed

section \<open>create_entities\<close>

lemma create_entities_loop_fail:
  assumes "\<not> distinct (map name es) \<or> (\<exists>e\<in>set es. name e \<in> stored_names (working c))"
  shows "\<exists>n. create_entities_loop es created c = (Inl (EntityAlreadyExistsError n), rollback c)
           \<and> n \<in> set (map name es)
           \<and> (n \<in> stored_names (working c) \<or> 1 < count_list (map name es) n)"
  using assms
proof (induction es arbitrary: created c)
  case Nil
  then show ?case by simp
next
  case (Cons e es)
  show ?case
  proof (cases "insert_entity (entity_to_row e) (working c)")
    case None
    then have "name e \<in> stored_names (working c)"
      by (simp add: insert_entity_None entity_to_row_def)
    with None show ?thesis by simp
  next
    case (Some d)
    let ?c = "c\<lparr>working := d\<rparr>"
    have sn: "stored_names (working ?c) = insert (name e) (stored_names (working c))"
      using stored_names_insert[OF Some] by (simp add: entity_to_row_def)
    have fresh: "name e \<notin> stored_names (working c)"
      using Some insert_entity_None[of "entity_to_row e" "working c"] by (simp add: entity_to_row_def)
    have "\<not> distinct (map name es) \<or> (\<exists>x\<in>set es. name x \<in> stored_names (working ?c))"
      using Cons.prems sn fresh by auto
    from Cons.IH[OF this, of "created @ [e]"] obtain n where
      n: "create_entities_loop es (created @ [e]) ?c = (Inl (EntityAlreadyExistsError n), rollback ?c)"
         "n \<in> set (map name es)"
         "n \<in> stored_names (working ?c) \<or> 1 < count_list (map name es) n" by blast
    have rb: "rollback ?c = rollback c" by (simp add: rollback_def)
    have cnt: "0 < count_list (map name es) n" using n(2) count_list_0_iff[of "map name es" n] by auto
    have "n \<in> stored_names (working c) \<or> 1 < count_list (map name (e # es)) n"
      using n(3) sn cnt by auto
    with n(1,2) rb Some show ?thesis by simp
  qed
qed

lemma create_entities_loop_ok:
  assumes "create_entities_loop es created c = (Inr out, c')"
  shows "out = created @ es
       \<and> entities_tbl (working c') = entities_tbl (working c) @ map entity_to_row es
       \<and> relations_tbl (working c') = relations_tbl (working c)
       \<and> distinct (map name es)
       \<and> (\<forall>e\<in>set es. name e \<notin> stored_names (working c))
       \<and> committed c' = working c'"
  using assms
proof (induction es arbitrary: created c)
  case Nil
  then show ?case by (auto simp: commit_def)
next
  case (Cons e es)
  from Cons.prems obtain d where d: "insert_entity (entity_to_row e) (working c) = Some d"
    by (cases "insert_entity (entity_to_row e) (working c)") auto
  let ?c = "c\<lparr>working := d\<rparr>"
  from Cons.prems d have "create_entities_loop es (created @ [e]) ?c = (Inr out, c')" by simp
  note ih = Cons.IH[OF this]
  have sn: "stored_names (working ?c) = insert (name e) (stored_names (working c))"
    using stored_names_insert[OF d] by (simp add: entity_to_row_def)
  have fresh: "name e \<notin> stored_names (working c)"
    using d insert_entity_None[of "entity_to_row e" "working c"] by (simp add: entity_to_row_def)
  have dd: "entities_tbl d = entities_tbl (working c) @ [entity_to_row e]"
      "relations_tbl d = relations_tbl (working c)"
    using d by (auto simp: insert_entity_def split: if_splits)
  show ?case using ih sn fresh dd by auto
qed

text \<open>
  C4, as the code has it. When a name of the batch is already stored, or occurs twice in the
  batch, \<open>create_entities\<close> fails with the already-exists error of such a name and rolls
  back: nothing of the call is committed and the store is exactly what was committed before,
  so a connection with no pending writes is left as it was. A name that was stored keeps its
  one entity with its type and observations; a name that only repeats an earlier item of the
  batch has no entity afterwards.
\<close>

theorem create_entities_duplicate:
  assumes "\<not> distinct (map name es) \<or> (\<exists>e\<in>set es. name e \<in> stored_names (working c))"
  shows "\<exists>n. create_entities es c = (Inl (EntityAlreadyExistsError n), rollback c)
           \<and> n \<in> set (map name es)
           \<and> (n \<in> stored_names (working c) \<or> 1 < count_list (map name es) n)
           \<and> committed (snd (create_entities es c)) = committed c
           \<and> working (snd (create_entities es c)) = committed c
           \<and> (working c = committed c \<longrightarrow> snd (create_entities es c) = c)
           \<and> (n \<in> stored_names (committed c) \<and> distinct (map row_name (entities_tbl (committed c)))
                \<longrightarrow> (\<exists>row. select_entity n (committed c) = Some row
                       \<and> filter (\<lambda>r. row_name r = n)
                            (entities_tbl (working (snd (create_entities es c)))) = [row]))
           \<and> (n \<notin> stored_names (committed c)
                \<longrightarrow> n \<notin> stored_names (working (snd (create_entities es c))))"
proof -
  from create_entities_loop_fail[OF assms, of "[]"] obtain n where
    n: "create_entities es c = (Inl (EntityAlreadyExistsError n), rollback c)"
       "n \<in> set (map name es)"
       "n \<in> stored_names (working c) \<or> 1 < count_list (map name es) n"
    unfolding create_entities_def by blast
  have same: "working c = committed c \<longrightarrow> rollback c = c" by (simp add: rollback_def)
  have one: "\<exists>row. select_entity n (committed c) = Some row
                \<and> filter (\<lambda>r. row_name r = n) (entities_tbl (working (rollback c))) = [row]"
    if "n \<in> stored_names (committed c)" "distinct (map row_name (entities_tbl (committed c)))"
    using single_row_of_name[OF that(2), of n] that(1)
    by (simp add: stored_names_def select_entity_def rollback_def)
  show ?thesis using n same one by (auto simp: rollback_def)
qed

theorem create_entities_duplicate_witness:
  "name alice_again \<in> stored_names (working example_conn)
   \<and> working example_conn = committed example_conn
   \<and> create_entities [carol, alice_again] example_conn =
       (Inl (EntityAlreadyExistsError ''Alice''), example_conn)
   \<and> filter (\<lambda>r. row_name r = ''Alice'') (entities_tbl (working example_conn)) = [alice_row]"
proof -
  have st: "name alice_again \<in> stored_names (working example_conn)"
    by (simp add: example_defs stored_names_def)
  then have h: "\<not> distinct (map name [carol, alice_again])
      \<or> (\<exists>e\<in>set [carol, alice_again]. name e \<in> stored_names (working example_conn))"
    by simp
  have cl: "working example_conn = committed example_conn"
    by (simp add: example_conn_def)
  from create_entities_duplicate [OF h] obtain n where
    n: "create_entities [carol, alice_again] example_conn =
          (Inl (EntityAlreadyExistsError n), rollback example_conn)"
      "n \<in> stored_names (working example_conn) \<or> 1 < count_list (map name [carol, alice_again]) n"
    by blast
  from n(2) have "n = ''Alice'' \<or> n = ''Bob''"
    by (auto simp: example_defs stored_names_def split: if_splits)
  moreover have "fst (create_entities [carol, alice_again] example_conn) \<noteq> Inl (EntityAlreadyExistsError ''Bob'')"
    by (simp add: create_entities_def insert_entity_def entity_to_row_def example_defs)
  ultimately have "n = ''Alice''" using n(1) by auto
  moreover have "filter (\<lambda>r. row_name r = ''Alice'') (entities_tbl (working example_conn)) = [alice_row]"
    by (simp add: example_defs)
  ultimately show ?thesis using n(1) st cl by (simp add: rollback_def)
qed

text \<open>
  C4, as stated, fails for a name that is only repeated inside the batch: on the empty store
  the second \<open>Carol\<close> is refused, the first is rolled back, and no entity of that name is stored.
\<close>

theorem create_entities_duplicate_counterexample:
  "create_entities [carol, carol] empty_conn = (Inl (EntityAlreadyExistsError ''Carol''), empty_conn)
   \<and> count_list (map name (entities (read_graph (snd (create_entities [carol, carol] empty_conn)))))
        ''Carol'' = 0"
  by (simp add: create_entities_def insert_entity_def entity_to_row_def rollback_def read_graph_def
      example_defs)

section \<open>The round trip of the observations field\<close>

lemma split_acc_nonempty: "split_acc cur s \<noteq> []"
  by (induction s arbitrary: cur) auto

lemma join_Cons: "ys \<noteq> [] \<Longrightarrow> join (x # ys) = x @ CHR '','' # join ys"
  by (cases ys) auto

lemma join_split_acc: "join (split_acc cur s) = cur @ s"
  by (induction s arbitrary: cur) (auto simp: join_Cons split_acc_nonempty)

lemma join_field_to_obs: "join (field_to_obs s) = s"
  by (simp add: field_to_obs_def split_def join_split_acc)

lemma split_acc_no_comma:
  "CHR '','' \<notin> set x \<Longrightarrow> split_acc cur (x @ rest) = split_acc (cur @ x) rest"
  by (induction x arbitrary: cur) auto

lemma split_acc_join:
  "xs \<noteq> [] \<Longrightarrow> \<forall>x\<in>set xs. CHR '','' \<notin> set x \<Longrightarrow> split_acc cur (join xs) = (cur @ hd xs) # tl xs"
proof (induction xs arbitrary: cur rule: join.induct)
  case 1 then show ?case by simp
next
  case (2 x)
  then show ?case using split_acc_no_comma[of x cur "[]"] by simp
next
  case (3 x y ys)
  have "split_acc cur (x @ CHR '','' # join (y # ys)) = split_acc (cur @ x) (CHR '','' # join (y # ys))"
    using 3 by (simp add: split_acc_no_comma)
  also have "\<dots> = (cur @ x) # split_acc [] (join (y # ys))" by simp
  also have "\<dots> = (cur @ x) # y # ys" using 3 by simp
  finally show ?case by simp
qed

lemma join_eq_Nil: "join xs = [] \<longleftrightarrow> xs = [] \<or> xs = [[]]"
  by (induction xs rule: join.induct) auto

lemma split_acc_items:
  "CHR '','' \<notin> set cur \<Longrightarrow> x \<in> set (split_acc cur s) \<Longrightarrow> CHR '','' \<notin> set x"
proof (induction s arbitrary: cur)
  case Nil
  then show ?case by simp
next
  case (Cons ch s)
  show ?case
  proof (cases "ch = CHR '',''")
    case True
    with Cons.prems have "x = cur \<or> x \<in> set (split_acc [] s)" by simp
    then show ?thesis using Cons.IH[of "[]"] Cons.prems(1) by auto
  next
    case False
    with Cons.prems have "x \<in> set (split_acc (cur @ [ch]) s)" by simp
    then show ?thesis using Cons.IH[of "cur @ [ch]"] Cons.prems(1) False by auto
  qed
qed

lemma field_to_obs_storable: "storable (field_to_obs s)"
proof -
  have "split s \<noteq> [[]]" if "s \<noteq> []"
  proof
    assume "split s = [[]]"
    then have "join (split s) = []" by simp
    then show False using that by (simp add: split_def join_split_acc)
  qed
  moreover have "\<forall>x\<in>set (split s). CHR '','' \<notin> set x"
    unfolding split_def using split_acc_items[of "[]" _ s] by simp
  ultimately show ?thesis by (simp add: storable_def field_to_obs_def)
qed

lemma field_to_obs_join: "field_to_obs (join xs) = xs \<longleftrightarrow> storable xs"
proof
  assume "field_to_obs (join xs) = xs"
  then show "storable xs" using field_to_obs_storable[of "join xs"] by simp
next
  assume s: "storable xs"
  show "field_to_obs (join xs) = xs"
  proof (cases "xs = []")
    case True then show ?thesis by (simp add: field_to_obs_def)
  next
    case False
    with s have "join xs \<noteq> []" by (simp add: join_eq_Nil storable_def)
    moreover have "split_acc [] (join xs) = ([] @ hd xs) # tl xs"
      using False s by (intro split_acc_join) (auto simp: storable_def)
    ultimately show ?thesis using False by (simp add: field_to_obs_def split_def)
  qed
qed


lemma row_roundtrip: "storable (observations e) \<Longrightarrow> row_to_entity (entity_to_row e) = e"
  using field_to_obs_join[of "observations e"] by (simp add: row_to_entity_def entity_to_row_def)

text \<open>
  C7, as the code has it. An entity created by a successful \<open>create_entities\<close> whose
  observation list is storable (no item contains the delimiter, and the list is not the single
  empty string) is listed by \<open>read_graph\<close> exactly once under its name, with the same
  observations in the same order; and an empty stored field is read as the empty sequence.
\<close>

theorem create_read_roundtrip:
  assumes "create_entities es c = (Inr created, c')"
    and "e \<in> set es"
    and "storable (observations e)"
  shows "filter (\<lambda>x. name x = name e) (entities (read_graph c')) = [e]
       \<and> observations_of (name e) (read_graph c') = Some (observations e)
       \<and> field_to_obs [] = []"
proof -
  from create_entities_loop_ok[OF assms(1)[unfolded create_entities_def]]
  have tbl: "entities_tbl (working c') = entities_tbl (working c) @ map entity_to_row es"
    and dist: "distinct (map name es)"
    and fresh: "\<forall>x\<in>set es. name x \<notin> stored_names (working c)" by auto
  have "name e \<notin> row_name ` set (entities_tbl (working c))"
    using fresh assms(2) by (simp add: stored_names_def)
  then have "\<forall>r\<in>set (entities_tbl (working c)). row_name r \<noteq> name e" by (metis imageI)
  then have old: "filter (\<lambda>r. row_name r = name e) (entities_tbl (working c)) = []"
    by (simp add: filter_empty_conv)
  have new: "filter (\<lambda>x. name x = name e) es = [e]"
    using filter_same_key[OF dist assms(2)] .
  have nm: "name (row_to_entity r) = row_name r" for r by (simp add: row_to_entity_def)
  have nm2: "row_name (entity_to_row x) = name x" for x by (simp add: entity_to_row_def)
  have "filter (\<lambda>x. name x = name e) (entities (read_graph c')) =
      map row_to_entity (filter (\<lambda>r. row_name r = name e) (entities_tbl (working c')))"
    by (simp add: read_graph_def filter_map comp_def nm)
  also have "\<dots> = map row_to_entity (map entity_to_row (filter (\<lambda>x. name x = name e) es))"
    unfolding tbl using old by (simp add: filter_map comp_def nm2)
  also have "\<dots> = [e]" unfolding new using row_roundtrip[OF assms(3)] by simp
  finally have one: "filter (\<lambda>x. name x = name e) (entities (read_graph c')) = [e]" .
  from find_filter_single[OF one] have "observations_of (name e) (read_graph c') = Some (observations e)"
    by (simp add: observations_of_def)
  with one show ?thesis by (simp add: field_to_obs_def)
qed

theorem create_read_roundtrip_witness:
  "create_entities [carol] example_conn = (Inr [carol], snd (create_entities [carol] example_conn))
   \<and> carol \<in> set [carol] \<and> storable (observations carol)
   \<and> observations_of ''Carol'' (read_graph (snd (create_entities [carol] example_conn))) =
       Some [''a'', ''b'']"
proof -
  have h: "create_entities [carol] example_conn =
      (Inr [carol], snd (create_entities [carol] example_conn))"
    by (simp add: create_entities_def insert_entity_def entity_to_row_def example_defs)
  have m: "carol \<in> set [carol]" by simp
  have st: "storable (observations carol)" by (simp add: storable_def carol_def)
  have nm: "name carol = ''Carol''" "observations carol = [''a'', ''b'']" by (simp_all add: carol_def)
  show ?thesis using h m st create_read_roundtrip [OF h m st] unfolding nm by blast
qed

text \<open>
  C7, as stated for every created entity, fails: the one-item list holding the empty string is
  stored as the empty field and read back as the empty list, and an item that contains the
  delimiter is read back as two items.
\<close>

theorem create_read_roundtrip_counterexample:
  "entities (read_graph (snd (create_entities
      [\<lparr>name = ''E'', entityType = ''t'', observations = [[]]\<rparr>] empty_conn))) =
     [\<lparr>name = ''E'', entityType = ''t'', observations = []\<rparr>]
   \<and> entities (read_graph (snd (create_entities
      [\<lparr>name = ''E'', entityType = ''t'', observations = [''a,b'']\<rparr>] empty_conn))) =
     [\<lparr>name = ''E'', entityType = ''t'', observations = [''a'', ''b'']\<rparr>]"
  by (simp add: create_entities_def insert_entity_def entity_to_row_def row_to_entity_def
      field_to_obs_def split_def commit_def read_graph_def example_defs)

section \<open>search_nodes and LIKE\<close>

lemma pattern_compare_percent: "pattern_compare [CHR ''%''] s"
  by (induction s) auto

lemma pattern_compare_prefix:
  assumes "CHR ''%'' \<notin> set q" and "CHR ''_'' \<notin> set q"
  shows "pattern_compare (q @ [CHR ''%'']) s \<longleftrightarrow> map to_lower (take (length q) s) = map to_lower q"
  using assms
proof (induction q arbitrary: s)
  case Nil
  then show ?case by (simp add: pattern_compare_percent)
next
  case (Cons p q)
  then show ?case by (cases s) (auto simp: like_char_def)
qed

lemma pattern_compare_contains_nocase:
  assumes "CHR ''%'' \<notin> set q" and "CHR ''_'' \<notin> set q"
  shows "pattern_compare (CHR ''%'' # q @ [CHR ''%'']) s \<longleftrightarrow> contains_nocase q s"
proof (induction s)
  case Nil
  show ?case using pattern_compare_prefix[OF assms, of "[]"] by auto
next
  case (Cons ch s)
  show ?case using pattern_compare_prefix[OF assms, of "ch # s"] Cons by simp
qed

lemma c_str_id: "CHR 0x00 \<notin> set s \<Longrightarrow> c_str s = s"
  by (induction s) (auto simp: c_str_def)

lemma like_nocase:
  assumes "CHR ''%'' \<notin> set q" and "CHR ''_'' \<notin> set q" and "CHR 0x00 \<notin> set q"
  shows "like (''%'' @ q @ ''%'') s \<longleftrightarrow> contains_nocase q (c_str s)"
proof -
  have "CHR 0x00 \<notin> set (''%'' @ q @ ''%'')" using assms(3) by simp
  then have "c_str (''%'' @ q @ ''%'') = CHR ''%'' # q @ [CHR ''%'']"
    using c_str_id[of "''%'' @ q @ ''%''"] by simp
  then show ?thesis
    using pattern_compare_contains_nocase[OF assms(1,2), of "c_str s"] by (simp add: like_def)
qed

lemma contains_substring_iff: "contains_substring q s \<longleftrightarrow> (\<exists>a b. s = a @ q @ b)"
proof (induction s)
  case Nil then show ?case by auto
next
  case (Cons ch s)
  have "take (length q) (ch # s) = q \<longleftrightarrow> (\<exists>b. ch # s = q @ b)"
    by (metis append_eq_conv_conj append_take_drop_id)
  moreover have "(\<exists>a b. ch # s = a @ q @ b) \<longleftrightarrow> (\<exists>b. ch # s = q @ b) \<or> (\<exists>a b. s = a @ q @ b)"
  proof
    assume "\<exists>a b. ch # s = a @ q @ b"
    then obtain a b where ab: "ch # s = a @ q @ b" by blast
    show "(\<exists>b. ch # s = q @ b) \<or> (\<exists>a b. s = a @ q @ b)"
    proof (cases a)
      case Nil with ab show ?thesis by auto
    next
      case (Cons x a') with ab show ?thesis by auto
    qed
  next
    assume "(\<exists>b. ch # s = q @ b) \<or> (\<exists>a b. s = a @ q @ b)"
    then show "\<exists>a b. ch # s = a @ q @ b"
    proof
      assume "\<exists>b. ch # s = q @ b"
      then obtain b where "ch # s = [] @ q @ b" by auto
      then show ?thesis by blast
    next
      assume "\<exists>a b. s = a @ q @ b"
      then obtain a b where "ch # s = (ch # a) @ q @ b" by auto
      then show ?thesis by blast
    qed
  qed
  ultimately show ?case using Cons by simp
qed

lemma contains_nocase_iff:
  "contains_nocase q s \<longleftrightarrow> (\<exists>a m b. s = a @ m @ b \<and> map to_lower m = map to_lower q)"
proof (induction s)
  case Nil then show ?case by auto
next
  case (Cons ch s)
  have pre: "map to_lower (take (length q) (ch # s)) = map to_lower q
      \<longleftrightarrow> (\<exists>m b. ch # s = m @ b \<and> map to_lower m = map to_lower q)"
  proof
    assume "map to_lower (take (length q) (ch # s)) = map to_lower q"
    then have "ch # s = take (length q) (ch # s) @ drop (length q) (ch # s)
        \<and> map to_lower (take (length q) (ch # s)) = map to_lower q" by simp
    then show "\<exists>m b. ch # s = m @ b \<and> map to_lower m = map to_lower q" by blast
  next
    assume "\<exists>m b. ch # s = m @ b \<and> map to_lower m = map to_lower q"
    then obtain m b where mb: "ch # s = m @ b" "map to_lower m = map to_lower q" by blast
    from mb(2) have "length m = length q" by (metis length_map)
    with mb show "map to_lower (take (length q) (ch # s)) = map to_lower q" by simp
  qed
  have "(\<exists>a m b. ch # s = a @ m @ b \<and> map to_lower m = map to_lower q)
      \<longleftrightarrow> (\<exists>m b. ch # s = m @ b \<and> map to_lower m = map to_lower q)
          \<or> (\<exists>a m b. s = a @ m @ b \<and> map to_lower m = map to_lower q)"
  proof
    assume "\<exists>a m b. ch # s = a @ m @ b \<and> map to_lower m = map to_lower q"
    then obtain a m b where ab: "ch # s = a @ m @ b" "map to_lower m = map to_lower q" by blast
    show "(\<exists>m b. ch # s = m @ b \<and> map to_lower m = map to_lower q)
          \<or> (\<exists>a m b. s = a @ m @ b \<and> map to_lower m = map to_lower q)"
    proof (cases a)
      case Nil with ab show ?thesis by auto
    next
      case (Cons x a') with ab show ?thesis by auto
    qed
  next
    assume "(\<exists>m b. ch # s = m @ b \<and> map to_lower m = map to_lower q)
          \<or> (\<exists>a m b. s = a @ m @ b \<and> map to_lower m = map to_lower q)"
    then show "\<exists>a m b. ch # s = a @ m @ b \<and> map to_lower m = map to_lower q"
    proof
      assume "\<exists>m b. ch # s = m @ b \<and> map to_lower m = map to_lower q"
      then obtain m b where "ch # s = [] @ m @ b \<and> map to_lower m = map to_lower q" by auto
      then show ?thesis by blast
    next
      assume "\<exists>a m b. s = a @ m @ b \<and> map to_lower m = map to_lower q"
      then obtain a m b where "ch # s = (ch # a) @ m @ b \<and> map to_lower m = map to_lower q" by auto
      then show ?thesis by blast
    qed
  qed
  with pre Cons show ?case by simp
qed

text \<open>
  C9, as the code has it. For a non-empty query with none of \<open>%\<close>, \<open>_\<close> and the NUL
  character, over stored names, types and observation fields that hold no NUL character,
  \<open>search_nodes\<close> returns exactly the entities whose name, type or stored observations field
  contains the query as a substring up to the case of the ASCII letters, which is what
  \<open>LIKE\<close> compares.
\<close>

theorem search_nodes_nocase:
  assumes "q \<noteq> []" and "CHR ''%'' \<notin> set q" and "CHR ''_'' \<notin> set q" and "CHR 0x00 \<notin> set q"
    and "\<forall>r\<in>set (entities_tbl (working c)).
           CHR 0x00 \<notin> set (row_name r) \<and> CHR 0x00 \<notin> set (entity_type r)
           \<and> CHR 0x00 \<notin> set (row_observations r)"
  shows "\<exists>g. search_nodes q c = Inr g
           \<and> entities g =
               map row_to_entity
                 (filter (\<lambda>r. contains_nocase q (row_name r) \<or> contains_nocase q (entity_type r)
                               \<or> contains_nocase q (row_observations r))
                    (entities_tbl (working c)))"
proof -
  have "row_matches q r \<longleftrightarrow> contains_nocase q (row_name r) \<or> contains_nocase q (entity_type r)
                               \<or> contains_nocase q (row_observations r)"
    if "r \<in> set (entities_tbl (working c))" for r
  proof -
    from that assms(5) have "c_str (row_name r) = row_name r" "c_str (entity_type r) = entity_type r"
        "c_str (row_observations r) = row_observations r"
      by (simp_all add: c_str_id)
    then show ?thesis
      using like_nocase[OF assms(2,3,4)] by (simp add: row_matches_def)
  qed
  then have "filter (row_matches q) (entities_tbl (working c)) =
      filter (\<lambda>r. contains_nocase q (row_name r) \<or> contains_nocase q (entity_type r)
                    \<or> contains_nocase q (row_observations r)) (entities_tbl (working c))"
    by (intro filter_cong) auto
  then show ?thesis using assms(1) by (simp add: search_nodes_def Let_def)
qed

theorem search_nodes_nocase_witness:
  "''ALICE'' \<noteq> [] \<and> CHR ''%'' \<notin> set ''ALICE'' \<and> CHR ''_'' \<notin> set ''ALICE''
   \<and> CHR 0x00 \<notin> set ''ALICE''
   \<and> entities_tbl (working example_conn) = [alice_row, bob_row]
   \<and> CHR 0x00 \<notin> set (row_name alice_row) \<and> CHR 0x00 \<notin> set (entity_type alice_row)
   \<and> CHR 0x00 \<notin> set (row_observations alice_row)
   \<and> CHR 0x00 \<notin> set (row_name bob_row) \<and> CHR 0x00 \<notin> set (entity_type bob_row)
   \<and> CHR 0x00 \<notin> set (row_observations bob_row)
   \<and> (\<exists>g. search_nodes ''ALICE'' example_conn = Inr g \<and> entities g = [row_to_entity alice_row])"
proof -
  have q: "''ALICE'' \<noteq> []" "CHR ''%'' \<notin> set ''ALICE''" "CHR ''_'' \<notin> set ''ALICE''"
      "CHR 0x00 \<notin> set ''ALICE''"
    by simp_all
  have rows: "entities_tbl (working example_conn) = [alice_row, bob_row]"
    by (simp add: example_conn_def example_db_def)
  have a: "CHR 0x00 \<notin> set (row_name alice_row)" "CHR 0x00 \<notin> set (entity_type alice_row)"
      "CHR 0x00 \<notin> set (row_observations alice_row)"
    by (simp_all add: alice_row_def)
  have b: "CHR 0x00 \<notin> set (row_name bob_row)" "CHR 0x00 \<notin> set (entity_type bob_row)"
      "CHR 0x00 \<notin> set (row_observations bob_row)"
    by (simp_all add: bob_row_def)
  have n: "\<forall>r\<in>set (entities_tbl (working example_conn)).
           CHR 0x00 \<notin> set (row_name r) \<and> CHR 0x00 \<notin> set (entity_type r)
           \<and> CHR 0x00 \<notin> set (row_observations r)"
    unfolding rows using a b by simp
  have f: "filter (\<lambda>r. contains_nocase ''ALICE'' (row_name r) \<or> contains_nocase ''ALICE'' (entity_type r)
                        \<or> contains_nocase ''ALICE'' (row_observations r))
             (entities_tbl (working example_conn)) = [alice_row]"
    by (simp add: example_defs to_lower_def)
  have "\<exists>g. search_nodes ''ALICE'' example_conn = Inr g \<and> entities g = [row_to_entity alice_row]"
    using search_nodes_nocase [OF q n] unfolding f by simp
  then show ?thesis using q rows a b by blast
qed

text \<open>
  C9, as stated, fails. The query \<open>alice\<close> finds \<open>Alice\<close>, the query \<open>B_b\<close> finds \<open>Bob\<close> and
  the query that is one NUL character finds every entity, though none of these queries is a
  literal substring of a field of a row it finds; and the query \<open>b\<close> does not find the entity
  whose name has a \<open>b\<close> after a NUL character.
\<close>

theorem search_nodes_case_counterexample:
  "search_nodes ''alice'' example_conn = Inr \<lparr>entities = [row_to_entity alice_row], relations = []\<rparr>
   \<and> \<not> spec_row_matches ''alice'' alice_row
   \<and> search_nodes ''B_b'' example_conn = Inr \<lparr>entities = [row_to_entity bob_row], relations = []\<rparr>
   \<and> \<not> spec_row_matches ''B_b'' bob_row
   \<and> search_nodes [CHR 0x00] example_conn =
       Inr \<lparr>entities = [row_to_entity alice_row, row_to_entity bob_row], relations = [knows]\<rparr>
   \<and> \<not> spec_row_matches [CHR 0x00] alice_row \<and> \<not> spec_row_matches [CHR 0x00] bob_row
   \<and> search_nodes ''b'' nul_conn = Inr \<lparr>entities = [], relations = []\<rparr>
   \<and> spec_row_matches ''b'' nul_row"
proof -
  have a: "search_nodes ''alice'' example_conn =
      Inr \<lparr>entities = [row_to_entity alice_row], relations = []\<rparr>"
    by (simp add: search_nodes_def row_matches_def like_def c_str_def like_char_def to_lower_def
        row_to_entity_def example_defs)
  have a': "\<not> spec_row_matches ''alice'' alice_row"
    by (simp add: spec_row_matches_def alice_row_def)
  have b: "search_nodes ''B_b'' example_conn =
      Inr \<lparr>entities = [row_to_entity bob_row], relations = []\<rparr>"
    by (simp add: search_nodes_def row_matches_def like_def c_str_def like_char_def to_lower_def
        row_to_entity_def example_defs)
  have b': "\<not> spec_row_matches ''B_b'' bob_row"
    by (simp add: spec_row_matches_def bob_row_def)
  have z: "search_nodes [CHR 0x00] example_conn =
       Inr \<lparr>entities = [row_to_entity alice_row, row_to_entity bob_row], relations = [knows]\<rparr>"
    by (simp add: search_nodes_def row_matches_def like_def c_str_def like_char_def to_lower_def
        row_to_entity_def example_defs)
  have z': "\<not> spec_row_matches [CHR 0x00] alice_row" "\<not> spec_row_matches [CHR 0x00] bob_row"
    by (simp_all add: spec_row_matches_def alice_row_def bob_row_def)
  have n: "search_nodes ''b'' nul_conn = Inr \<lparr>entities = [], relations = []\<rparr>"
    by (simp add: search_nodes_def row_matches_def like_def c_str_def like_char_def to_lower_def
        nul_conn_def nul_row_def)
  have n': "spec_row_matches ''b'' nul_row"
    by (simp add: spec_row_matches_def nul_row_def)
  show ?thesis using a a' b b' z z' n n' by blast
qed

section \<open>add_observations\<close>



lemma stored_names_update [simp]:
  "stored_names (update_observations v m d) = stored_names d"
  by (auto simp: stored_names_def update_observations_def image_iff)







text \<open>
  C2 on the code: the second item names no stored entity, the not-found error of \<open>Carol\<close> is
  raised, and the append made for \<open>Bob\<close> stays in the connection: \<open>read_graph\<close> lists it, and
  the commit of the next operation, here a deletion of no name, makes it durable.
\<close>

theorem add_observations_keeps_partial_writes:
  "fst (add_observations [(''Bob'', [''x'']), (''Carol'', [''y''])] example_conn) =
     Inl (EntityNotFoundError ''Carol'')
   \<and> observations_of ''Bob'' (read_graph example_conn) = Some []
   \<and> observations_of ''Bob''
       (read_graph (snd (add_observations [(''Bob'', [''x'']), (''Carol'', [''y''])] example_conn))) =
     Some [''x'']
   \<and> stored_field ''Bob''
       (committed (delete_entities []
          (snd (add_observations [(''Bob'', [''x'']), (''Carol'', [''y''])] example_conn)))) =
     Some ''x''"
  by (simp add: add_observations_def select_entity_def update_observations_def field_to_obs_def
      split_def observations_of_def read_graph_def row_to_entity_def stored_field_def delete_entities_def
      commit_def example_defs)

section \<open>The invariant of the store\<close>

text \<open>
  Every operation keeps the names unique, the triples unique and the endpoints of the
  relations stored, in what the connection sees and in what is committed: the hypotheses on
  the tables made above hold of every store that the operations can reach from the empty one.
\<close>

lemma conn_ok_empty: "conn_ok empty_conn"
  by (simp add: conn_ok_def well_formed_def empty_conn_def empty_db_def)

lemma conn_ok_rollback: "conn_ok c \<Longrightarrow> conn_ok (rollback c)"
  by (simp add: conn_ok_def rollback_def)

lemma create_entities_loop_Inl:
  "create_entities_loop es created c = (Inl err, c') \<Longrightarrow> c' = rollback c"
proof (induction es arbitrary: created c)
  case Nil then show ?case by simp
next
  case (Cons e es)
  show ?case
  proof (cases "insert_entity (entity_to_row e) (working c)")
    case None with Cons.prems show ?thesis by simp
  next
    case (Some d)
    with Cons.prems have "create_entities_loop es (created @ [e]) (c\<lparr>working := d\<rparr>) = (Inl err, c')"
      by simp
    from Cons.IH[OF this] show ?thesis by (simp add: rollback_def)
  qed
qed

lemma create_relations_loop_Inl:
  "create_relations_loop rs created c = (Inl err, c') \<Longrightarrow> c' = rollback c"
proof (induction rs arbitrary: created c)
  case Nil then show ?case by simp
next
  case (Cons r rs)
  show ?case
  proof (cases "select_entity (from_entity r) (working c) = None \<or> select_entity (to_entity r) (working c) = None")
    case True with Cons.prems show ?thesis by (auto split: if_splits)
  next
    case False
    obtain d k where ins: "insert_relation r (working c) = (d, k)"
      by (cases "insert_relation r (working c)")
    from False have "select_entity (from_entity r) (working c) \<noteq> None"
        "select_entity (to_entity r) (working c) \<noteq> None" by simp_all
    with ins Cons.prems have
      "create_relations_loop rs (if k > 0 then created @ [r] else created) (c\<lparr>working := d\<rparr>) = (Inl err, c')"
      by (simp del: not_None_eq split: if_splits)
    from Cons.IH[OF this] show ?thesis by (simp add: rollback_def)
  qed
qed

lemma conn_ok_create_entities:
  assumes "conn_ok c"
  shows "conn_ok (snd (create_entities es c))"
proof (cases "create_entities es c")
  case (Pair res c')
  show ?thesis
  proof (cases res)
    case (Inl err)
    with Pair have "c' = rollback c"
      using create_entities_loop_Inl unfolding create_entities_def by blast
    with Pair assms show ?thesis by (simp add: conn_ok_rollback)
  next
    case (Inr out)
    from create_entities_loop_ok[OF Pair[unfolded create_entities_def Inr]]
    have tbl: "entities_tbl (working c') = entities_tbl (working c) @ map entity_to_row es"
      and rel: "relations_tbl (working c') = relations_tbl (working c)"
      and dist: "distinct (map name es)"
      and fresh: "\<forall>e\<in>set es. name e \<notin> stored_names (working c)"
      and com: "committed c' = working c'" by auto
    have nm: "map row_name (map entity_to_row es) = map name es"
      by (simp add: entity_to_row_def comp_def)
    have "set (map name es) \<inter> set (map row_name (entities_tbl (working c))) = {}"
      using fresh unfolding stored_names_def by auto
    then have "distinct (map row_name (entities_tbl (working c')))"
      using assms dist unfolding tbl map_append nm distinct_append
      by (auto simp: conn_ok_def well_formed_def)
    moreover have "stored_names (working c) \<subseteq> stored_names (working c')"
      unfolding stored_names_def tbl by auto
    ultimately have "well_formed (working c')"
      using assms rel by (auto simp: conn_ok_def well_formed_def)
    with com Pair show ?thesis by (simp add: conn_ok_def)
  qed
qed

lemma conn_ok_create_relations:
  assumes "conn_ok c"
  shows "conn_ok (snd (create_relations rs c))"
proof (cases "create_relations rs c")
  case (Pair res c')
  show ?thesis
  proof (cases res)
    case (Inl err)
    with Pair have "c' = rollback c"
      using create_relations_loop_Inl unfolding create_relations_def by blast
    with Pair assms show ?thesis by (simp add: conn_ok_rollback)
  next
    case (Inr out)
    from create_relations_loop_ok[OF Pair[unfolded create_relations_def Inr]]
    obtain new where
      tbl: "relations_tbl (working c') = relations_tbl (working c) @ new"
      and ent: "entities_tbl (working c') = entities_tbl (working c)"
      and new: "set new = set rs - set (relations_tbl (working c))"
      and dist: "distinct new"
      and ex: "\<forall>r\<in>set rs. from_entity r \<in> stored_names (working c) \<and> to_entity r \<in> stored_names (working c)"
      and com: "committed c' = working c'" by auto
    have sn: "stored_names (working c') = stored_names (working c)"
      using ent by (simp add: stored_names_def)
    have "distinct (relations_tbl (working c'))"
      using assms dist new unfolding tbl by (auto simp: conn_ok_def well_formed_def)
    moreover have "\<forall>r\<in>set (relations_tbl (working c')).
        from_entity r \<in> stored_names (working c') \<and> to_entity r \<in> stored_names (working c')"
      using assms ex new unfolding tbl sn by (auto simp: conn_ok_def well_formed_def)
    ultimately have "well_formed (working c')"
      using assms ent by (simp add: conn_ok_def well_formed_def)
    with com Pair show ?thesis by (simp add: conn_ok_def)
  qed
qed

lemma conn_ok_delete_entities:
  assumes "conn_ok c"
  shows "conn_ok (delete_entities ns c)"
proof -
  note t = delete_entities_loop_tables[of ns c, folded delete_entities_def]
  let ?c = "delete_entities ns c"
  have e: "distinct (map row_name (entities_tbl (working ?c)))"
    using assms t by (simp add: conn_ok_def well_formed_def distinct_map_filter)
  have r: "distinct (relations_tbl (working ?c))"
    using assms t by (simp add: conn_ok_def well_formed_def)
  have sn: "stored_names (working ?c) = stored_names (working c) - set ns"
    using t by (auto simp: stored_names_def)
  have "\<forall>r\<in>set (relations_tbl (working ?c)).
        from_entity r \<in> stored_names (working ?c) \<and> to_entity r \<in> stored_names (working ?c)"
    using assms t unfolding sn by (auto simp: conn_ok_def well_formed_def)
  with e r have "well_formed (working ?c)" by (simp add: well_formed_def)
  with t show ?thesis by (simp add: conn_ok_def)
qed

lemma map_row_name_update:
  "map row_name (entities_tbl (update_observations v n d)) = map row_name (entities_tbl d)"
  by (simp add: update_observations_def comp_def if_distrib cong: if_cong)

lemma add_observations_loop_shape:
  "add_observations_loop items added c = (res, c') \<Longrightarrow>
     map row_name (entities_tbl (working c')) = map row_name (entities_tbl (working c))
     \<and> relations_tbl (working c') = relations_tbl (working c)
     \<and> (committed c' = committed c \<or> committed c' = working c')"
proof (induction items arbitrary: added c)
  case Nil
  then show ?case by (auto simp: commit_def)
next
  case (Cons item items)
  obtain k v where item: "item = (k, v)" by (cases item)
  show ?case
  proof (cases "select_entity k (working c)")
    case None
    with Cons.prems item show ?thesis by auto
  next
    case (Some row)
    let ?c = "c\<lparr>working := update_observations (join (field_to_obs (row_observations row) @ v)) k (working c)\<rparr>"
    from Cons.prems item Some have
      "add_observations_loop items (AList.update k v added) ?c = (res, c')" by (simp add: Let_def)
    from Cons.IH[OF this] show ?thesis
      by (simp add: map_row_name_update) (simp add: update_observations_def)
  qed
qed

lemma conn_ok_add_observations:
  assumes "conn_ok c"
  shows "conn_ok (snd (add_observations items c))"
proof (cases "add_observations items c")
  case (Pair res c')
  from add_observations_loop_shape[OF Pair[unfolded add_observations_def]]
  have nm: "map row_name (entities_tbl (working c')) = map row_name (entities_tbl (working c))"
    and rel: "relations_tbl (working c') = relations_tbl (working c)"
    and com: "committed c' = committed c \<or> committed c' = working c'" by auto
  have "stored_names (working c') = stored_names (working c)"
    using nm by (simp add: stored_names_def)
  with nm rel assms have "well_formed (working c')" by (simp add: conn_ok_def well_formed_def)
  with com assms Pair show ?thesis by (auto simp: conn_ok_def)
qed

end
